theory Spec2Isabelle
  imports Main "HOL-Library.FSet"
begin

section \<open>Data model\<close>

text \<open>
  The program is \<^verbatim>\<open>pagerank.py\<close>. A corpus is a Python \<^verbatim>\<open>dict\<close> from a page
  name to the \<^verbatim>\<open>set\<close> of page names it links to. A \<^verbatim>\<open>dict\<close> keeps its keys in
  insertion order and the iterative solver updates ranks in that order, so a \<^verbatim>\<open>dict\<close> is
  an association list here (its keys are pairwise distinct, \<open>distinct (dict_keys d)\<close>), and a
  \<^verbatim>\<open>set\<close> is a finite set. Python's floats are idealised as exact rationals: every
  statement about a numeric value below is a statement of exact arithmetic.
\<close>

datatype error = KeyError | IndexError | ZeroDivisionError | ValueError

type_synonym ('k, 'v) dict = "('k \<times> 'v) list"

type_synonym 'p corpus = "('p, 'p fset) dict"

type_synonym 'p distribution = "('p, rat) dict"

definition dict_keys :: "('k, 'v) dict \<Rightarrow> 'k list" where
  "dict_keys d = map fst d"

text \<open>\<^verbatim>\<open>d[k]\<close> raises \<^verbatim>\<open>KeyError\<close> for a missing key.\<close>

definition dict_get :: "('k, 'v) dict \<Rightarrow> 'k \<Rightarrow> error + 'v" where
  "dict_get d k = (case map_of d k of None \<Rightarrow> Inl KeyError | Some v \<Rightarrow> Inr v)"

text \<open>\<^verbatim>\<open>d[k] = v\<close> overwrites the value of a present key where it stands and appends a new key.\<close>

fun dict_set :: "'k \<Rightarrow> 'v \<Rightarrow> ('k, 'v) dict \<Rightarrow> ('k, 'v) dict" where
  "dict_set k v [] = [(k, v)]"
| "dict_set k v (kv # d) = (if fst kv = k then (k, v) # d else kv # dict_set k v d)"

text \<open>
  \<^verbatim>\<open>a == b\<close> on two dicts: the same number of entries, and every key of \<open>a\<close> is a key of
  \<open>b\<close> with an equal value; the order of the entries does not count.
\<close>

definition dict_eq :: "('k, 'v) dict \<Rightarrow> ('k, 'v) dict \<Rightarrow> bool" where
  "dict_eq a b = (length a = length b \<and> list_all (\<lambda>kv. map_of b (fst kv) = Some (snd kv)) a)"

section \<open>The transition model\<close>

text \<open>
  \<^verbatim>\<open>transition_model(corpus, page, damping_factor)\<close>. The function reads \<^verbatim>\<open>corpus\<close> and
  writes only its own fresh dictionary; the model returns the corpus next to the result, as
  the state the call leaves behind. The loop \<^verbatim>\<open>for pages in corpus\<close> is \<open>fill_distribution\<close>:
  it stores the base probability and then adds the additional probability to the stored value
  of a linked page.
\<close>

fun fill_distribution ::
  "'p fset \<Rightarrow> rat \<Rightarrow> rat \<Rightarrow> 'p list \<Rightarrow> 'p distribution \<Rightarrow> error + 'p distribution" where
  "fill_distribution linkedPages baseProbability additionalProbability [] probabilityDistribution =
     Inr probabilityDistribution"
| "fill_distribution linkedPages baseProbability additionalProbability (pages # rest)
       probabilityDistribution =
     (let pd = dict_set pages baseProbability probabilityDistribution
      in if pages |\<in>| linkedPages
         then (case dict_get pd pages of
                 Inl e \<Rightarrow> Inl e
               | Inr p \<Rightarrow>
                   fill_distribution linkedPages baseProbability additionalProbability rest
                     (dict_set pages (p + additionalProbability) pd))
         else fill_distribution linkedPages baseProbability additionalProbability rest pd)"

definition transition_model ::
  "'p corpus \<Rightarrow> 'p \<Rightarrow> rat \<Rightarrow> (error + 'p distribution) \<times> 'p corpus" where
  "transition_model corpus page damping_factor =
     (case dict_get corpus page of
        Inl e \<Rightarrow> (Inl e, corpus)
      | Inr linkedPages \<Rightarrow>
          if length corpus = 0 then (Inl ZeroDivisionError, corpus)
          else
            let uniform = 1 / of_nat (length corpus);
                baseProbability =
                  (if fcard linkedPages \<noteq> 0 then uniform * (1 - damping_factor) else uniform);
                additionalProbability =
                  (if fcard linkedPages \<noteq> 0
                   then (1 / of_nat (fcard linkedPages)) * damping_factor else 0)
            in (fill_distribution linkedPages baseProbability additionalProbability
                  (dict_keys corpus) [], corpus))"

section \<open>The random-walk sampler\<close>

text \<open>
  The module \<^verbatim>\<open>random\<close> is Python's library, not code of this program. Its generator is a
  parameter of the model: a tape \<open>rs\<close> whose \<open>i\<close>-th cell is the number in \<open>[0, 1)\<close> that the
  \<open>i\<close>-th draw of the run returns. \<^verbatim>\<open>random.choice(seq)\<close> raises \<^verbatim>\<open>IndexError\<close> on an empty
  sequence and otherwise returns the element at a uniformly drawn index.
  \<^verbatim>\<open>random.choices(population, weights)\<close> accumulates the weights, raises \<^verbatim>\<open>ValueError\<close>
  when the lengths differ or the total is not positive, and returns the element at the
  insertion point of \<open>u * total\<close> among the cumulative weights, capped at the last index.
  The library finds the insertion point by binary search; \<open>bisect\<close> scans from the left, which
  is the same index whenever the cumulative weights are non-decreasing, that is for weights
  that are not negative (a damping factor in \<open>[0, 1]\<close>).
\<close>

type_synonym rng = "nat \<Rightarrow> rat"

definition random_choice :: "rat \<Rightarrow> 'a list \<Rightarrow> error + 'a" where
  "random_choice u seq =
     (if seq = [] then Inl IndexError
      else Inr (seq ! nat \<lfloor>u * of_nat (length seq)\<rfloor>))"

fun accumulate :: "rat \<Rightarrow> rat list \<Rightarrow> rat list" where
  "accumulate s [] = []"
| "accumulate s (w # ws) = (s + w) # accumulate (s + w) ws"

definition bisect :: "rat list \<Rightarrow> rat \<Rightarrow> nat \<Rightarrow> nat" where
  "bisect a x hi = length (takeWhile (\<lambda>c. c \<le> x) (take hi a))"

definition random_choices :: "rat \<Rightarrow> 'a list \<Rightarrow> rat list \<Rightarrow> error + 'a" where
  "random_choices u population weights =
     (let cum_weights = accumulate 0 weights
      in if length cum_weights \<noteq> length population then Inl ValueError
         else if cum_weights = [] then Inl IndexError
         else let total = last cum_weights
              in if total \<le> 0 then Inl ValueError
                 else Inr (population !
                        bisect cum_weights (u * total) (length population - 1)))"

text \<open>
  The loop \<^verbatim>\<open>for samples in range(1, n)\<close> of \<^verbatim>\<open>sample_pagerank\<close>: \<open>k\<close> iterations are left,
  \<open>i\<close> is the next cell of the tape, and the corpus is threaded through the calls of
  \<open>transition_model\<close>.
\<close>

fun sample_loop ::
  "rng \<Rightarrow> 'p corpus \<Rightarrow> rat \<Rightarrow> nat \<Rightarrow> nat \<Rightarrow> 'p \<Rightarrow> 'p list \<Rightarrow> (error + 'p list) \<times> 'p corpus" where
  "sample_loop rs corpus damping_factor 0 i prevSample sample = (Inr sample, corpus)"
| "sample_loop rs corpus damping_factor (Suc k) i prevSample sample =
     (case transition_model corpus prevSample damping_factor of
        (Inl e, corpus') \<Rightarrow> (Inl e, corpus')
      | (Inr prevDistribution, corpus') \<Rightarrow>
          (case random_choices (rs i) (dict_keys prevDistribution) (map snd prevDistribution) of
             Inl e \<Rightarrow> (Inl e, corpus')
           | Inr newSample \<Rightarrow>
               sample_loop rs corpus' damping_factor k (Suc i) newSample (sample @ [newSample])))"

text \<open>
  \<^verbatim>\<open>sample_pagerank(corpus, damping_factor, n)\<close>. The returned dictionary is built from
  \<^verbatim>\<open>set(sample)\<close>, whose iteration order the program does not fix, so it is a map here.
  The sample is never empty, so the division by \<open>n\<close> is evaluated at least once and raises
  for \<open>n = 0\<close>.
\<close>

definition sample_pagerank ::
  "rng \<Rightarrow> 'p corpus \<Rightarrow> rat \<Rightarrow> int \<Rightarrow> (error + ('p \<rightharpoonup> rat)) \<times> 'p corpus" where
  "sample_pagerank rs corpus damping_factor n =
     (case random_choice (rs 0) (dict_keys corpus) of
        Inl e \<Rightarrow> (Inl e, corpus)
      | Inr firstSample \<Rightarrow>
          (case sample_loop rs corpus damping_factor (nat (n - 1)) 1 firstSample [firstSample] of
             (Inl e, corpus') \<Rightarrow> (Inl e, corpus')
           | (Inr sample, corpus') \<Rightarrow>
               if n = 0 then (Inl ZeroDivisionError, corpus')
               else (Inr (\<lambda>i. if i \<in> set sample
                               then Some (of_nat (count_list sample i) / of_int n)
                               else None), corpus')))"

section \<open>The iterative solver\<close>

text \<open>
  \<^verbatim>\<open>round(x, 5)\<close>: to the nearest multiple of \<open>10\<^sup>-\<^sup>5\<close>, a tie to the even one. This
  is the rounding of the exact value. The program rounds a double and returns a double: its
  result is the double nearest to such a multiple, not the multiple itself, and where the exact
  argument is a decimal tie the double may fall on either side of it. No general theorem below
  depends on which multiple is chosen; the evaluated scenarios are runs of the exact model.
\<close>

definition round_half_even :: "rat \<Rightarrow> int" where
  "round_half_even x =
     (let f = \<lfloor>x\<rfloor>; r = x - of_int f
      in if r < 1 / 2 then f else if 1 / 2 < r then f + 1 else if even f then f else f + 1)"

definition py_round :: "rat \<Rightarrow> nat \<Rightarrow> rat" where
  "py_round x ndigits = of_int (round_half_even (x * 10 ^ ndigits)) / 10 ^ ndigits"

text \<open>The dictionary comprehension \<^verbatim>\<open>{key: 1/len(corpus) for key in corpus}\<close>.\<close>

fun initial_distribution :: "nat \<Rightarrow> 'p list \<Rightarrow> 'p distribution \<Rightarrow> error + 'p distribution" where
  "initial_distribution len [] probabilityDistribution = Inr probabilityDistribution"
| "initial_distribution len (key # rest) probabilityDistribution =
     (if len = 0 then Inl ZeroDivisionError
      else initial_distribution len rest (dict_set key (1 / of_nat len) probabilityDistribution))"

text \<open>
  The loop that gives every page without out-links the set of all pages. It writes into the
  corpus it was given, so it returns the corpus.
\<close>

fun fix_dangling :: "'p list \<Rightarrow> 'p corpus \<Rightarrow> (error + unit) \<times> 'p corpus" where
  "fix_dangling [] corpus = (Inr (), corpus)"
| "fix_dangling (key # rest) corpus =
     (case dict_get corpus key of
        Inl e \<Rightarrow> (Inl e, corpus)
      | Inr links \<Rightarrow>
          fix_dangling rest
            (if links = {||} then dict_set key (fset_of_list (dict_keys corpus)) corpus
             else corpus))"

text \<open>The inner loop \<^verbatim>\<open>for nestedPage in corpus\<close> that collects the pages linking to \<open>page\<close>.\<close>

fun inward_links :: "'p corpus \<Rightarrow> 'p \<Rightarrow> 'p list \<Rightarrow> 'p list \<Rightarrow> error + 'p list" where
  "inward_links corpus page [] pagesWithInwardLinks = Inr pagesWithInwardLinks"
| "inward_links corpus page (nestedPage # rest) pagesWithInwardLinks =
     (case dict_get corpus nestedPage of
        Inl e \<Rightarrow> Inl e
      | Inr links \<Rightarrow>
          inward_links corpus page rest
            (if page |\<in>| links then pagesWithInwardLinks @ [nestedPage]
             else pagesWithInwardLinks))"

text \<open>The loop \<^verbatim>\<open>for subPage in pagesWithInwardLinks\<close> that adds up the shares.\<close>

fun sum_shares :: "'p corpus \<Rightarrow> 'p distribution \<Rightarrow> 'p list \<Rightarrow> rat \<Rightarrow> error + rat" where
  "sum_shares corpus probabilityDistribution [] s = Inr s"
| "sum_shares corpus probabilityDistribution (subPage # rest) s =
     (case dict_get probabilityDistribution subPage of
        Inl e \<Rightarrow> Inl e
      | Inr r \<Rightarrow>
          (case dict_get corpus subPage of
             Inl e \<Rightarrow> Inl e
           | Inr links \<Rightarrow>
               if fcard links = 0 then Inl ZeroDivisionError
               else sum_shares corpus probabilityDistribution rest
                      (s + r / of_nat (fcard links))))"

text \<open>
  One pass of \<^verbatim>\<open>for page in corpus\<close>: the new rank of a page is stored into
  \<^verbatim>\<open>probabilityDistribution\<close>, the dictionary the next page's sum reads from.
\<close>

fun sweep :: "'p corpus \<Rightarrow> rat \<Rightarrow> 'p list \<Rightarrow> 'p distribution \<Rightarrow> error + 'p distribution" where
  "sweep corpus damping_factor [] probabilityDistribution = Inr probabilityDistribution"
| "sweep corpus damping_factor (page # rest) probabilityDistribution =
     (case inward_links corpus page (dict_keys corpus) [] of
        Inl e \<Rightarrow> Inl e
      | Inr pagesWithInwardLinks \<Rightarrow>
          (case sum_shares corpus probabilityDistribution pagesWithInwardLinks 0 of
             Inl e \<Rightarrow> Inl e
           | Inr s \<Rightarrow>
               if length corpus = 0 then Inl ZeroDivisionError
               else sweep corpus damping_factor rest
                      (dict_set page
                         (py_round ((1 - damping_factor) / of_nat (length corpus)
                                    + damping_factor * s) 5)
                         probabilityDistribution)))"

text \<open>
  \<^verbatim>\<open>while probabilityDistribution != priorDistribution\<close>. Nothing in the program bounds the
  number of passes, so the loop is a partial function: \<open>None\<close> is a run that never returns.
  The exit test compares rounded values for equality, so the number of passes, and whether
  there is a last one, can differ between exact and floating-point arithmetic: the statements
  below are about the structure of a run (what is read, what is written, in which order), not
  about the digits it ends on.
\<close>

partial_function (option) iterate_loop ::
  "'p corpus \<Rightarrow> rat \<Rightarrow> 'p distribution \<Rightarrow> 'p distribution \<Rightarrow> (error + 'p distribution) option" where
  "iterate_loop corpus damping_factor probabilityDistribution priorDistribution =
     (if dict_eq probabilityDistribution priorDistribution then Some (Inr probabilityDistribution)
      else (case sweep corpus damping_factor (dict_keys corpus) probabilityDistribution of
              Inl e \<Rightarrow> Some (Inl e)
            | Inr probabilityDistribution' \<Rightarrow>
                iterate_loop corpus damping_factor probabilityDistribution'
                  probabilityDistribution))"

declare iterate_loop.simps [code]

text \<open>
  \<^verbatim>\<open>iterate_pagerank(corpus, damping_factor)\<close>: the result, with the corpus as the call
  leaves it.
\<close>

definition iterate_pagerank ::
  "'p corpus \<Rightarrow> rat \<Rightarrow> ((error + 'p distribution) \<times> 'p corpus) option" where
  "iterate_pagerank corpus damping_factor =
     (case initial_distribution (length corpus) (dict_keys corpus) [] of
        Inl e \<Rightarrow> Some (Inl e, corpus)
      | Inr probabilityDistribution \<Rightarrow>
          (case fix_dangling (dict_keys corpus) corpus of
             (Inl e, corpus') \<Rightarrow> Some (Inl e, corpus')
           | (Inr u, corpus') \<Rightarrow>
               map_option (\<lambda>r. (r, corpus'))
                 (iterate_loop corpus' damping_factor probabilityDistribution [])))"

section \<open>Auxiliary notions for the statements\<close>

text \<open>
  The probability \<open>transition_model\<close> stores for the page \<open>q\<close>: the base probability, plus
  the additional probability when the current page links to \<open>q\<close>.
\<close>

definition weight :: "'p fset \<Rightarrow> rat \<Rightarrow> rat \<Rightarrow> 'p \<Rightarrow> rat" where
  "weight linkedPages b a q = (if q |\<in>| linkedPages then b + a else b)"

text \<open>
  The corpus of the scenario with a dangling page: a page without out-links next to a page
  that links to it.
\<close>

definition dangling_corpus :: "string corpus" where
  "dangling_corpus = [(''A'', {||}), (''B'', {|''A''|})]"

text \<open>
  The out-links and the rank of a page as total functions, for the statements below: the
  program only looks up pages that are keys, so the default is never read.
\<close>

definition links_of :: "'p corpus \<Rightarrow> 'p \<Rightarrow> 'p fset" where
  "links_of corpus q = (case map_of corpus q of None \<Rightarrow> {||} | Some links \<Rightarrow> links)"

definition rank_of :: "'p distribution \<Rightarrow> 'p \<Rightarrow> rat" where
  "rank_of dist q = (case map_of dist q of None \<Rightarrow> 0 | Some r \<Rightarrow> r)"

text \<open>
  The recurrence as the specification writes it:
  \<open>rank'(p) = (1 - d) / N + d * \<Sum> rank(q) / |out-links(q)|\<close>, the sum over the pages \<open>q\<close>
  that link to \<open>p\<close>, for a rank function \<open>rank\<close>. It follows the specification's words and is
  compared with \<open>sweep\<close>, which follows the program.
\<close>

definition spec_recurrence :: "'p corpus \<Rightarrow> rat \<Rightarrow> ('p \<Rightarrow> rat) \<Rightarrow> 'p \<Rightarrow> rat" where
  "spec_recurrence corpus d rank p =
     (1 - d) / of_nat (length corpus)
       + d * (\<Sum>q \<leftarrow> filter (\<lambda>q. p |\<in>| links_of corpus q) (dict_keys corpus).
                rank q / of_nat (fcard (links_of corpus q)))"

text \<open>
  The preprocessing as the specification writes it: a page with an empty out-link set links
  to every page of the corpus, every other page keeps its links. It is compared with
  \<open>fix_dangling\<close>, which follows the program.
\<close>

definition spec_fix_links :: "'p corpus \<Rightarrow> 'p corpus" where
  "spec_fix_links corpus =
     map (\<lambda>kv. (fst kv, if snd kv = {||} then fset_of_list (dict_keys corpus) else snd kv)) corpus"

text \<open>
  One step of \<open>sweep\<close> without its error branches: the rounded recurrence over the ranks
  currently stored is stored for the page.
\<close>

definition new_rank :: "'p corpus \<Rightarrow> rat \<Rightarrow> 'p distribution \<Rightarrow> 'p \<Rightarrow> rat" where
  "new_rank corpus d dist page = py_round (spec_recurrence corpus d (rank_of dist) page) 5"

definition sweep_step :: "'p corpus \<Rightarrow> rat \<Rightarrow> 'p \<Rightarrow> 'p distribution \<Rightarrow> 'p distribution" where
  "sweep_step corpus d page dist = dict_set page (new_rank corpus d dist page) dist"

text \<open>A tape of the generator on which every draw returns 0.\<close>

definition zero_tape :: rng where
  "zero_tape i = 0"

section \<open>Dictionaries\<close>

lemma map_of_dict_set: "map_of (dict_set k v d) = (map_of d)(k \<mapsto> v)"
  by (induction d) (auto simp: fun_eq_iff)

lemma dict_set_absent: "k \<notin> set (dict_keys d) \<Longrightarrow> dict_set k v d = d @ [(k, v)]"
  by (induction d) (auto simp: dict_keys_def)

lemma dict_set_twice: "dict_set k v (dict_set k w d) = dict_set k v d"
  by (induction d) auto

lemma dict_keys_dict_set_present:
  "k \<in> set (dict_keys d) \<Longrightarrow> dict_keys (dict_set k v d) = dict_keys d"
  by (induction d) (auto simp: dict_keys_def)

lemma dict_get_dict_set_same: "dict_get (dict_set k v d) k = Inr v"
  by (simp add: dict_get_def map_of_dict_set)

lemma dict_get_present:
  "map_of d k = Some v \<Longrightarrow> dict_get d k = Inr v"
  by (simp add: dict_get_def)

section \<open>The transition model: its distribution\<close>

text \<open>
  On a corpus with distinct keys the loop of \<open>transition_model\<close> raises nothing and
  tabulates \<open>weight\<close> over the keys of the corpus, in their order.
\<close>

lemma fill_distribution_eq:
  "distinct ks \<Longrightarrow> set ks \<inter> set (dict_keys pd) = {} \<Longrightarrow>
   fill_distribution L b a ks pd = Inr (pd @ map (\<lambda>q. (q, weight L b a q)) ks)"
proof (induction ks arbitrary: pd)
  case Nil
  then show ?case by simp
next
  case (Cons k ks)
  from Cons.prems have k: "k \<notin> set (dict_keys pd)" and d: "distinct ks" and kk: "k \<notin> set ks"
    and dj: "set ks \<inter> set (dict_keys pd) = {}" by auto
  have dj': "set ks \<inter> set (dict_keys (pd @ [(k, v)])) = {}" for v
    using dj kk by (auto simp: dict_keys_def)
  have "fill_distribution L b a (k # ks) pd =
          fill_distribution L b a ks (dict_set k (weight L b a k) pd)"
    by (simp add: Let_def dict_get_dict_set_same dict_set_twice weight_def)
  also have "\<dots> = fill_distribution L b a ks (pd @ [(k, weight L b a k)])"
    using k by (simp add: dict_set_absent)
  also have "\<dots> = Inr ((pd @ [(k, weight L b a k)]) @ map (\<lambda>q. (q, weight L b a q)) ks)"
    by (rule Cons.IH [OF d dj'])
  finally show ?case by simp
qed

lemma transition_model_eq:
  assumes "distinct (dict_keys corpus)" and "map_of corpus page = Some linkedPages"
  shows "transition_model corpus page d =
           (Inr (map (\<lambda>q. (q, weight linkedPages
                     (if linkedPages = {||} then 1 / of_nat (length corpus)
                      else 1 / of_nat (length corpus) * (1 - d))
                     (if linkedPages = {||} then 0 else 1 / of_nat (fcard linkedPages) * d) q))
                   (dict_keys corpus)), corpus)"
proof -
  from assms(2) have ne: "corpus \<noteq> []" by auto
  have fc: "fcard linkedPages = 0 \<longleftrightarrow> linkedPages = {||}"
    by (simp add: fcard_0_eq)
  show ?thesis
    using ne assms(1)
    by (simp add: transition_model_def dict_get_present [OF assms(2)] Let_def fc
        fill_distribution_eq dict_keys_def)
qed

lemma length_dict_keys: "length (dict_keys d) = length d"
  by (simp add: dict_keys_def)

lemma map_of_tabulate:
  "q \<in> set ks \<Longrightarrow> map_of (map (\<lambda>q. (q, f q)) ks) q = Some (f q)"
  by (induction ks) auto

lemma dict_keys_tabulate: "dict_keys (map (\<lambda>q. (q, f q)) ks) = ks"
  by (simp add: dict_keys_def comp_def)

lemma sum_list_weight:
  "sum_list (map (weight L b a) ks) =
     of_nat (length ks) * b + of_nat (length (filter (\<lambda>q. q |\<in>| L) ks)) * a"
  by (induction ks) (auto simp: weight_def algebra_simps)

lemma length_filter_links:
  assumes "distinct ks" and "fset L \<subseteq> set ks"
  shows "length (filter (\<lambda>q. q |\<in>| L) ks) = fcard L"
proof -
  have "length (filter (\<lambda>q. q |\<in>| L) ks) = card {q \<in> set ks. q |\<in>| L}"
    using assms(1) by (simp add: distinct_length_filter Int_def conj_commute)
  also have "{q \<in> set ks. q |\<in>| L} = fset L"
    using assms(2) by auto
  finally show ?thesis by (simp add: fcard.rep_eq)
qed

lemma weight_nonneg: "0 \<le> b \<Longrightarrow> 0 \<le> a \<Longrightarrow> 0 \<le> weight L b a q"
  by (simp add: weight_def)

text \<open>
  C4: for a page of the corpus without out-links, \<open>transition_model\<close> gives every page of the
  corpus the probability \<open>1 / N\<close>; for a page with \<open>k > 0\<close> out-links it gives a linked page
  \<open>(1 - d) / N + d / k\<close> and every other page \<open>(1 - d) / N\<close>. This holds for every damping
  factor \<open>d\<close>.
\<close>

theorem transition_model_probabilities:
  assumes "distinct (dict_keys corpus)"
    and "map_of corpus page = Some linkedPages"
    and "q \<in> set (dict_keys corpus)"
  shows "\<exists>dist. fst (transition_model corpus page d) = Inr dist \<and>
           map_of dist q =
             Some (if fcard linkedPages = 0 then 1 / of_nat (length corpus)
                   else if q |\<in>| linkedPages
                        then (1 - d) / of_nat (length corpus) + d / of_nat (fcard linkedPages)
                        else (1 - d) / of_nat (length corpus))"
  using assms(3)
  by (simp add: transition_model_eq [OF assms(1,2)] map_of_tabulate weight_def fcard_0_eq)

text \<open>
  C5: for a page of the corpus whose links all lead to pages of the corpus (what \<^verbatim>\<open>crawl\<close>
  builds) and a damping factor in \<open>(0, 1)\<close>, the dictionary \<open>transition_model\<close> returns has
  exactly the keys of the corpus, so \<open>N\<close> entries, no negative value, and its values add up
  to exactly 1.
\<close>

theorem transition_model_distribution:
  assumes "distinct (dict_keys corpus)"
    and "map_of corpus page = Some linkedPages"
    and "fset linkedPages \<subseteq> set (dict_keys corpus)"
    and "0 < d" and "d < 1"
  shows "\<exists>dist. fst (transition_model corpus page d) = Inr dist \<and>
           length dist = length corpus \<and> dict_keys dist = dict_keys corpus \<and>
           list_all (\<lambda>kv. 0 \<le> snd kv) dist \<and> sum_list (map snd dist) = 1"
proof -
  define N :: rat where "N = of_nat (length corpus)"
  define b where "b = (if linkedPages = {||} then 1 / N else 1 / N * (1 - d))"
  define a where "a = (if linkedPages = {||} then 0 else 1 / of_nat (fcard linkedPages) * d)"
  define dist where "dist = map (\<lambda>q. (q, weight linkedPages b a q)) (dict_keys corpus)"
  from assms(2) have "corpus \<noteq> []" by auto
  then have N: "0 < N" by (simp add: N_def)
  have eq: "fst (transition_model corpus page d) = Inr dist"
    by (simp add: transition_model_eq [OF assms(1,2)] dist_def b_def a_def N_def)
  have len: "length dist = length corpus" by (simp add: dist_def dict_keys_def)
  have keys: "dict_keys dist = dict_keys corpus"
    unfolding dist_def by (rule dict_keys_tabulate)
  have b0: "0 \<le> b" using N assms(4,5) by (simp add: b_def)
  have a0: "0 \<le> a" using assms(4) by (simp add: a_def)
  have nonneg: "list_all (\<lambda>kv. 0 \<le> snd kv) dist"
    by (simp add: list_all_iff dist_def weight_nonneg [OF b0 a0])
  have "sum_list (map snd dist) = sum_list (map (weight linkedPages b a) (dict_keys corpus))"
    by (simp add: dist_def comp_def)
  also have "\<dots> = N * b + of_nat (fcard linkedPages) * a"
    by (simp add: sum_list_weight length_filter_links [OF assms(1,3)] length_dict_keys N_def)
  also have "\<dots> = 1"
  proof (cases "linkedPages = {||}")
    case True
    then show ?thesis using N by (simp add: b_def a_def)
  next
    case False
    then have "fcard linkedPages \<noteq> 0" by (simp only: fcard_0_eq not_False_eq_True)
    then have "(of_nat (fcard linkedPages) :: rat) \<noteq> 0" by simp
    then show ?thesis using False N by (simp add: b_def a_def field_simps)
  qed
  finally have total: "sum_list (map snd dist) = 1" .
  from eq len keys nonneg total show ?thesis by blast
qed

theorem transition_model_probabilities_witness:
  "distinct (dict_keys dangling_corpus) \<and>
   map_of dangling_corpus ''B'' = Some {|''A''|} \<and>
   ''A'' \<in> set (dict_keys dangling_corpus) \<and>
   (\<exists>dist. fst (transition_model dangling_corpus ''B'' (17 / 20)) = Inr dist \<and>
           map_of dist ''A'' = Some (37 / 40))"
proof -
  have h1: "distinct (dict_keys dangling_corpus)"
    by (simp add: dict_keys_def dangling_corpus_def)
  have h2: "map_of dangling_corpus ''B'' = Some {|''A''|}"
    by (simp add: dangling_corpus_def)
  have h3: "''A'' \<in> set (dict_keys dangling_corpus)"
    by (simp add: dict_keys_def dangling_corpus_def)
  have len: "length dangling_corpus = 2"
    by (simp add: dangling_corpus_def)
  show ?thesis
    using h1 h2 h3 transition_model_probabilities [OF h1 h2 h3, of "17 / 20"]
    by (simp add: fcard_finsert_if fcard_fempty len)
qed

theorem transition_model_distribution_witness:
  "distinct (dict_keys dangling_corpus) \<and>
   map_of dangling_corpus ''B'' = Some {|''A''|} \<and>
   fset {|''A''|} \<subseteq> set (dict_keys dangling_corpus) \<and>
   (0::rat) < 17 / 20 \<and> (17 / 20 :: rat) < 1 \<and>
   (\<exists>dist. fst (transition_model dangling_corpus ''B'' (17 / 20)) = Inr dist \<and>
           length dist = length dangling_corpus \<and>
           dict_keys dist = dict_keys dangling_corpus \<and>
           list_all (\<lambda>kv. 0 \<le> snd kv) dist \<and> sum_list (map snd dist) = 1)"
proof -
  have h1: "distinct (dict_keys dangling_corpus)"
    by (simp add: dict_keys_def dangling_corpus_def)
  have h2: "map_of dangling_corpus ''B'' = Some {|''A''|}"
    by (simp add: dangling_corpus_def)
  have h3: "fset {|''A''|} \<subseteq> set (dict_keys dangling_corpus)"
    by (simp add: dict_keys_def dangling_corpus_def)
  have h4: "(0::rat) < 17 / 20" by simp
  have h5: "(17 / 20 :: rat) < 1" by simp
  show ?thesis
    using h1 h2 h3 h4 h5 transition_model_distribution [OF h1 h2 h3 h4 h5]
    by blast
qed

section \<open>The sampler: the corpus, the sample count, the visited pages\<close>

lemma transition_model_frame: "snd (transition_model corpus page d) = corpus"
  by (simp add: transition_model_def Let_def split: sum.splits)

lemma sample_loop_frame: "snd (sample_loop rs corpus d k i prevSample sample) = corpus"
proof (induction k arbitrary: i prevSample sample)
  case 0
  show ?case by simp
next
  case (Suc k)
  obtain r where tm: "transition_model corpus prevSample d = (r, corpus)"
    using transition_model_frame [of corpus prevSample d]
    by (cases "transition_model corpus prevSample d") simp
  show ?case
    by (simp add: tm Suc.IH split: sum.splits)
qed

lemma sample_pagerank_frame: "snd (sample_pagerank rs corpus d n) = corpus"
proof (cases "random_choice (rs 0) (dict_keys corpus)")
  case (Inl e)
  then show ?thesis by (simp add: sample_pagerank_def)
next
  case (Inr firstSample)
  obtain r where loop:
    "sample_loop rs corpus d (nat (n - 1)) (Suc 0) firstSample [firstSample] = (r, corpus)"
    using sample_loop_frame [of rs corpus d "nat (n - 1)" "Suc 0" firstSample "[firstSample]"]
    by (cases "sample_loop rs corpus d (nat (n - 1)) (Suc 0) firstSample [firstSample]") simp
  show ?thesis
    by (simp add: sample_pagerank_def Inr loop split: sum.splits)
qed

text \<open>
  With positive weights \<^verbatim>\<open>random.choices\<close> returns a member of the population, and with a
  draw in \<open>[0, 1)\<close> \<^verbatim>\<open>random.choice\<close> returns a member of a non-empty sequence.
\<close>

lemma length_accumulate: "length (accumulate s ws) = length ws"
  by (induction ws arbitrary: s) auto

lemma last_accumulate_Cons: "last (accumulate s (w # ws)) = s + w + sum_list ws"
  by (induction ws arbitrary: s w) (simp_all add: add.assoc)

lemma last_accumulate:
  assumes "ws \<noteq> []"
  shows "last (accumulate s ws) = s + sum_list ws"
proof (cases ws)
  case Nil
  with assms show ?thesis by simp
next
  case (Cons w ws')
  show ?thesis
    by (simp only: Cons last_accumulate_Cons sum_list.Cons add.assoc)
qed

lemma sum_list_nonneg_rat:
  fixes ws :: "rat list"
  shows "list_all (\<lambda>w. 0 < w) ws \<Longrightarrow> 0 \<le> sum_list ws"
  by (induction ws) auto

lemma sum_list_pos_rat:
  fixes ws :: "rat list"
  assumes "ws \<noteq> []" and "list_all (\<lambda>w. 0 < w) ws"
  shows "0 < sum_list ws"
proof (cases ws)
  case Nil
  with assms(1) show ?thesis by simp
next
  case (Cons w ws')
  with assms(2) have "0 < w" and "0 \<le> sum_list ws'"
    by (simp_all add: sum_list_nonneg_rat)
  then show ?thesis by (simp add: Cons add_pos_nonneg)
qed

lemma bisect_le: "bisect a x hi \<le> hi"
proof -
  have "length (takeWhile (\<lambda>c. c \<le> x) (take hi a)) \<le> length (take hi a)"
    by (rule length_takeWhile_le)
  then show ?thesis by (simp add: bisect_def)
qed

lemma random_choices_ok:
  assumes "length population = length weights" and "population \<noteq> []"
    and "list_all (\<lambda>w. 0 < w) weights"
  shows "\<exists>x \<in> set population. random_choices u population weights = Inr x"
proof -
  from assms(1,2) have ws: "weights \<noteq> []" by auto
  then have acc: "accumulate 0 weights \<noteq> []"
    using length_accumulate [of 0 weights] by auto
  have total: "0 < last (accumulate 0 weights)"
    using sum_list_pos_rat [OF ws assms(3)] by (simp add: last_accumulate [OF ws])
  have "bisect (accumulate 0 weights) (u * last (accumulate 0 weights)) (length population - 1)
          \<le> length population - 1"
    by (rule bisect_le)
  moreover have "0 < length population" using assms(2) by simp
  ultimately have
    "bisect (accumulate 0 weights) (u * last (accumulate 0 weights)) (length population - 1)
          < length population"
    by linarith
  then show ?thesis
    using acc total assms(1)
    by (simp add: random_choices_def Let_def length_accumulate not_le [symmetric])
qed

lemma random_choice_ok:
  assumes "seq \<noteq> []" and "0 \<le> u" and "u < 1"
  shows "\<exists>x \<in> set seq. random_choice u seq = Inr x"
proof -
  have len: "(0::rat) < of_nat (length seq)" using assms(1) by simp
  have "u * of_nat (length seq) < of_nat (length seq)"
    using assms(3) len by simp
  then have "\<lfloor>u * of_nat (length seq)\<rfloor> < int (length seq)"
    by (simp add: floor_less_iff)
  then have "nat \<lfloor>u * of_nat (length seq)\<rfloor> < length seq"
    using assms(1) by (cases seq) simp_all
  then show ?thesis
    using assms(1) by (simp add: random_choice_def)
qed

text \<open>
  So the walk never fails on a non-empty corpus with a damping factor in \<open>(0, 1)\<close>: every
  page it reaches is a page of the corpus, and every weight is positive.
\<close>

lemma weight_pos: "0 < b \<Longrightarrow> 0 \<le> a \<Longrightarrow> 0 < weight L b a q"
  by (simp add: weight_def add_pos_nonneg)

lemma transition_model_positive:
  assumes "distinct (dict_keys corpus)" and "page \<in> set (dict_keys corpus)"
    and "0 < d" and "d < 1"
  shows "\<exists>dist. transition_model corpus page d = (Inr dist, corpus) \<and>
           dict_keys dist = dict_keys corpus \<and> list_all (\<lambda>w. 0 < w) (map snd dist)"
proof -
  from assms(2) obtain linkedPages where page: "map_of corpus page = Some linkedPages"
    by (cases "map_of corpus page") (auto simp: map_of_eq_None_iff dict_keys_def)
  then have "corpus \<noteq> []" by auto
  define N :: rat where "N = of_nat (length corpus)"
  define b where "b = (if linkedPages = {||} then 1 / N else 1 / N * (1 - d))"
  define a where "a = (if linkedPages = {||} then 0 else 1 / of_nat (fcard linkedPages) * d)"
  define dist where "dist = map (\<lambda>q. (q, weight linkedPages b a q)) (dict_keys corpus)"
  have N: "0 < N" using \<open>corpus \<noteq> []\<close> by (simp add: N_def)
  have b: "0 < b" using N assms(3,4) by (simp add: b_def)
  have a: "0 \<le> a" using assms(3) by (simp add: a_def)
  have "transition_model corpus page d = (Inr dist, corpus)"
    by (simp add: transition_model_eq [OF assms(1) page] dist_def b_def a_def N_def)
  moreover have "dict_keys dist = dict_keys corpus"
    unfolding dist_def by (rule dict_keys_tabulate)
  moreover have "list_all (\<lambda>w. 0 < w) (map snd dist)"
    by (simp add: dist_def list_all_iff weight_pos [OF b a])
  ultimately show ?thesis by blast
qed

lemma sample_loop_ok:
  assumes "distinct (dict_keys corpus)" and "0 < d" and "d < 1"
  shows "prevSample \<in> set (dict_keys corpus) \<Longrightarrow>
         \<exists>s. sample_loop rs corpus d k i prevSample sample = (Inr (sample @ s), corpus) \<and>
             length s = k \<and> set s \<subseteq> set (dict_keys corpus)"
proof (induction k arbitrary: i prevSample sample)
  case 0
  show ?case by simp
next
  case (Suc k)
  from transition_model_positive [OF assms(1) Suc.prems assms(2,3)]
  obtain dist where tm: "transition_model corpus prevSample d = (Inr dist, corpus)"
    and keys: "dict_keys dist = dict_keys corpus"
    and pos: "list_all (\<lambda>w. 0 < w) (map snd dist)"
    by blast
  have len: "length (dict_keys dist) = length (map snd dist)"
    by (simp add: dict_keys_def)
  have ne: "dict_keys dist \<noteq> []"
    using Suc.prems keys by auto
  from random_choices_ok [OF len ne pos, of "rs i"]
  obtain newSample where new: "newSample \<in> set (dict_keys corpus)"
    and rc: "random_choices (rs i) (dict_keys dist) (map snd dist) = Inr newSample"
    using keys by auto
  from Suc.IH [OF new, of "Suc i" "sample @ [newSample]"]
  obtain s where loop: "sample_loop rs corpus d k (Suc i) newSample (sample @ [newSample])
                          = (Inr ((sample @ [newSample]) @ s), corpus)"
    and s: "length s = k" "set s \<subseteq> set (dict_keys corpus)"
    by blast
  have "sample_loop rs corpus d (Suc k) i prevSample sample
          = (Inr (sample @ (newSample # s)), corpus)"
    by (simp add: tm rc loop)
  moreover have "length (newSample # s) = Suc k" using s by simp
  moreover have "set (newSample # s) \<subseteq> set (dict_keys corpus)" using s new by simp
  ultimately show ?case by blast
qed

text \<open>
  C7, as the program has it: \<open>sample_pagerank\<close> does not validate its sample count. On a
  non-empty corpus with a damping factor in \<open>(0, 1)\<close> it returns a mapping for every
  \<open>n \<ge> 1\<close>; for \<open>n = 0\<close> it fails with the \<open>ZeroDivisionError\<close> of its last division; for
  \<open>n < 0\<close> it returns the mapping that holds the start page alone, with the value \<open>1 / n\<close>.
\<close>

theorem sample_pagerank_sample_count:
  assumes "distinct (dict_keys corpus)" and "corpus \<noteq> []"
    and "0 < d" and "d < 1" and "0 \<le> rs 0" and "rs 0 < 1"
  shows "(1 \<le> n \<longrightarrow> (\<exists>m. fst (sample_pagerank rs corpus d n) = Inr m)) \<and>
         (n = 0 \<longrightarrow> fst (sample_pagerank rs corpus d n) = Inl ZeroDivisionError) \<and>
         (n < 0 \<longrightarrow> (\<exists>p \<in> set (dict_keys corpus).
                      fst (sample_pagerank rs corpus d n) = Inr [p \<mapsto> 1 / of_int n]))"
proof -
  have "dict_keys corpus \<noteq> []" using assms(2) by (simp add: dict_keys_def)
  from random_choice_ok [OF this assms(5,6)]
  obtain firstSample where first: "firstSample \<in> set (dict_keys corpus)"
    and rc: "random_choice (rs 0) (dict_keys corpus) = Inr firstSample"
    by blast
  from sample_loop_ok [OF assms(1,3,4) first, of rs "nat (n - 1)" "Suc 0" "[firstSample]"]
  obtain s where loop: "sample_loop rs corpus d (nat (n - 1)) (Suc 0) firstSample [firstSample]
                          = (Inr (firstSample # s), corpus)"
    and s: "length s = nat (n - 1)"
    by auto
  have zero: "fst (sample_pagerank rs corpus d n) = Inl ZeroDivisionError" if "n = 0"
    using that rc loop by (simp add: sample_pagerank_def)
  have eq: "fst (sample_pagerank rs corpus d n) =
            Inr (\<lambda>i. if i \<in> set (firstSample # s)
                      then Some (of_nat (count_list (firstSample # s) i) / of_int n)
                      else None)" if "n \<noteq> 0"
    using that rc loop by (simp add: sample_pagerank_def)
  have neg: "(\<lambda>i. if i \<in> set (firstSample # s)
                      then Some (of_nat (count_list (firstSample # s) i) / of_int n)
                      else None) = [firstSample \<mapsto> 1 / of_int n]" if "n < 0"
    using that s by (auto simp: fun_eq_iff)
  show ?thesis
  proof (intro conjI impI)
    assume "1 \<le> n"
    then show "\<exists>m. fst (sample_pagerank rs corpus d n) = Inr m"
      using eq by auto
  next
    assume "n = 0"
    then show "fst (sample_pagerank rs corpus d n) = Inl ZeroDivisionError"
      by (rule zero)
  next
    assume "n < 0"
    then show "\<exists>p \<in> set (dict_keys corpus).
                 fst (sample_pagerank rs corpus d n) = Inr [p \<mapsto> 1 / of_int n]"
      using eq neg first by auto
  qed
qed

theorem sample_pagerank_sample_count_witness:
  "distinct (dict_keys dangling_corpus) \<and> dangling_corpus \<noteq> [] \<and>
   (0::rat) < 17 / 20 \<and> (17 / 20 :: rat) < 1 \<and> 0 \<le> zero_tape 0 \<and> zero_tape 0 < 1 \<and>
   (\<exists>m. fst (sample_pagerank zero_tape dangling_corpus (17 / 20) 3) = Inr m) \<and>
   fst (sample_pagerank zero_tape dangling_corpus (17 / 20) 0) = Inl ZeroDivisionError \<and>
   (\<exists>p \<in> set (dict_keys dangling_corpus).
      fst (sample_pagerank zero_tape dangling_corpus (17 / 20) (- 1)) = Inr [p \<mapsto> 1 / of_int (- 1)])"
proof -
  have h1: "distinct (dict_keys dangling_corpus)"
    by (simp add: dict_keys_def dangling_corpus_def)
  have h2: "dangling_corpus \<noteq> []"
    by (simp add: dangling_corpus_def)
  have h3: "(0::rat) < 17 / 20" by simp
  have h4: "(17 / 20 :: rat) < 1" by simp
  have h5: "0 \<le> zero_tape 0" by (simp add: zero_tape_def)
  have h6: "zero_tape 0 < 1" by (simp add: zero_tape_def)
  show ?thesis
    using h1 h2 h3 h4 h5 h6
      sample_pagerank_sample_count [where rs = zero_tape and n = 3, OF h1 h2 h3 h4 h5 h6]
      sample_pagerank_sample_count [where rs = zero_tape and n = 0, OF h1 h2 h3 h4 h5 h6]
      sample_pagerank_sample_count [where rs = zero_tape and n = "- 1", OF h1 h2 h3 h4 h5 h6]
    by simp
qed

text \<open>One sample on the corpus with pages \<open>A\<close> and \<open>B\<close>: the walk never leaves its start page.\<close>

lemma sample_pagerank_single_step:
  "sample_pagerank zero_tape dangling_corpus (17 / 20) 1 = (Inr [''A'' \<mapsto> 1], dangling_corpus)"
  by (simp add: sample_pagerank_def random_choice_def zero_tape_def dangling_corpus_def
      dict_keys_def fun_eq_iff)

text \<open>
  C2: the mapping \<open>sample_pagerank\<close> returns should have an entry for every page of the
  corpus. With one sample on the two-page corpus it has an entry for the start page \<open>A\<close> and
  none for the page \<open>B\<close>, which was not visited.
\<close>

theorem sample_pagerank_omits_unvisited:
  "\<not> isl (fst (sample_pagerank zero_tape dangling_corpus (17 / 20) 1)) \<and>
   projr (fst (sample_pagerank zero_tape dangling_corpus (17 / 20) 1)) ''A'' = Some 1 \<and>
   projr (fst (sample_pagerank zero_tape dangling_corpus (17 / 20) 1)) ''B'' = None"
  by (simp add: sample_pagerank_single_step)

text \<open>
  C7 as stated fails: a call with \<open>n = - 1\<close> is not rejected, it returns a mapping, and the
  value of the start page in it is \<open>- 1\<close>.
\<close>

theorem sample_pagerank_negative_count_counterexample:
  "\<not> isl (fst (sample_pagerank zero_tape dangling_corpus (17 / 20) (- 1))) \<and>
   projr (fst (sample_pagerank zero_tape dangling_corpus (17 / 20) (- 1))) ''A'' = Some (- 1)"
  by (simp add: sample_pagerank_def random_choice_def zero_tape_def dangling_corpus_def
      dict_keys_def)

text \<open>
  C3 as stated fails: on the empty corpus \<open>iterate_pagerank\<close> raises nothing and returns
  the empty mapping.
\<close>

theorem empty_corpus_counterexample:
  "iterate_pagerank ([] :: string corpus) (17 / 20) = Some (Inr [], [])"
  by (simp add: iterate_pagerank_def dict_keys_def iterate_loop.simps dict_eq_def)

text \<open>
  C3, as the program has it: on the empty corpus \<open>iterate_pagerank\<close> returns the empty
  mapping, and \<open>sample_pagerank\<close> fails with the \<open>IndexError\<close> that \<^verbatim>\<open>random.choice\<close> raises
  on an empty sequence; neither checks for the empty corpus.
\<close>

theorem empty_corpus_behaviour:
  "iterate_pagerank [] d = Some (Inr [], []) \<and>
   sample_pagerank rs [] d n = (Inl IndexError, [])"
  by (simp add: iterate_pagerank_def dict_keys_def iterate_loop.simps dict_eq_def
      sample_pagerank_def random_choice_def)

section \<open>The iterative solver: preprocessing and one pass\<close>

lemma dict_keys_append: "dict_keys (a @ b) = dict_keys a @ dict_keys b"
  by (simp add: dict_keys_def)

lemma dict_set_middle:
  "k \<notin> set (dict_keys pre) \<Longrightarrow> dict_set k v (pre @ (k, w) # post) = pre @ (k, v) # post"
  by (induction pre) (auto simp: dict_keys_def)

lemma map_of_middle:
  "k \<notin> set (dict_keys pre) \<Longrightarrow> map_of (pre @ (k, w) # post) k = Some w"
  by (induction pre) (auto simp: dict_keys_def)

lemma fix_dangling_suffix:
  "distinct (dict_keys (pre @ post)) \<Longrightarrow>
   fix_dangling (dict_keys post) (pre @ post) =
     (Inr (), pre @ map (\<lambda>kv. (fst kv, if snd kv = {||}
                                         then fset_of_list (dict_keys (pre @ post))
                                         else snd kv)) post)"
proof (induction post arbitrary: pre)
  case Nil
  show ?case by (simp add: dict_keys_def)
next
  case (Cons kv post)
  obtain k v where kv: "kv = (k, v)" by (cases kv)
  define K where "K = fset_of_list (dict_keys (pre @ kv # post))"
  define v' where "v' = (if v = {||} then K else v)"
  from Cons.prems have k: "k \<notin> set (dict_keys pre)"
    by (auto simp: kv dict_keys_def)
  have keys: "dict_keys ((pre @ [(k, v')]) @ post) = dict_keys (pre @ kv # post)"
    by (simp add: dict_keys_def kv)
  with Cons.prems have dist: "distinct (dict_keys ((pre @ [(k, v')]) @ post))" by simp
  have dk: "dict_keys (kv # post) = k # dict_keys post"
    by (simp add: dict_keys_def kv)
  have get: "dict_get (pre @ kv # post) k = Inr v"
    unfolding kv dict_get_def by (simp only: map_of_middle [OF k] option.case)
  have upd: "(if v = {||} then dict_set k K (pre @ kv # post) else pre @ kv # post)
               = (pre @ [(k, v')]) @ post"
    by (simp add: kv v'_def dict_set_middle [OF k])
  have "fix_dangling (dict_keys (kv # post)) (pre @ kv # post)
          = fix_dangling (dict_keys post)
              (if v = {||} then dict_set k K (pre @ kv # post) else pre @ kv # post)"
    by (simp only: dk fix_dangling.simps get sum.case K_def)
  also have "\<dots> = fix_dangling (dict_keys post) ((pre @ [(k, v')]) @ post)"
    by (simp only: upd)
  also have "\<dots> = (Inr (), (pre @ [(k, v')]) @
       map (\<lambda>kv. (fst kv, if snd kv = {||} then K else snd kv)) post)"
    using Cons.IH [OF dist] by (simp only: keys K_def)
  finally show ?case by (simp add: kv v'_def K_def)
qed

lemma fix_dangling_eq:
  "distinct (dict_keys corpus) \<Longrightarrow> fix_dangling (dict_keys corpus) corpus = (Inr (), spec_fix_links corpus)"
  using fix_dangling_suffix [of "[]" corpus] by (simp add: spec_fix_links_def)

text \<open>
  On a distribution that has a rank for every page of the corpus, the two inner loops of a
  pass raise nothing, and a pass is the fold of \<open>sweep_step\<close> over the pages.
\<close>

lemma dict_get_links_of:
  "q \<in> set (dict_keys corpus) \<Longrightarrow> dict_get corpus q = Inr (links_of corpus q)"
  by (cases "map_of corpus q")
     (auto simp: dict_get_def links_of_def map_of_eq_None_iff dict_keys_def)

lemma dict_get_rank_of:
  "q \<in> set (dict_keys dist) \<Longrightarrow> dict_get dist q = Inr (rank_of dist q)"
  by (cases "map_of dist q")
     (auto simp: dict_get_def rank_of_def map_of_eq_None_iff dict_keys_def)

lemma inward_links_eq:
  "set ks \<subseteq> set (dict_keys corpus) \<Longrightarrow>
   inward_links corpus page ks acc = Inr (acc @ filter (\<lambda>q. page |\<in>| links_of corpus q) ks)"
  by (induction ks arbitrary: acc) (simp_all add: dict_get_links_of)

lemma sum_shares_eq:
  assumes "set ps \<subseteq> set (dict_keys corpus)" and "set ps \<subseteq> set (dict_keys dist)"
    and "list_all (\<lambda>q. links_of corpus q \<noteq> {||}) ps"
  shows "sum_shares corpus dist ps s =
           Inr (s + (\<Sum>q \<leftarrow> ps. rank_of dist q / of_nat (fcard (links_of corpus q))))"
  using assms
  by (induction ps arbitrary: s) (simp_all add: dict_get_links_of dict_get_rank_of add.assoc)

lemma set_dict_keys_dict_set:
  "set (dict_keys (dict_set k v d)) = insert k (set (dict_keys d))"
  by (induction d) (auto simp: dict_keys_def)

lemma sweep_page:
  assumes "page \<in> set (dict_keys corpus)" and "set (dict_keys corpus) \<subseteq> set (dict_keys dist)"
  shows "sweep corpus d (page # rest) dist = sweep corpus d rest (sweep_step corpus d page dist)"
proof -
  let ?ps = "filter (\<lambda>q. page |\<in>| links_of corpus q) (dict_keys corpus)"
  have inw: "inward_links corpus page (dict_keys corpus) [] = Inr ?ps"
    by (simp add: inward_links_eq)
  have "list_all (\<lambda>q. links_of corpus q \<noteq> {||}) ?ps"
    by (auto simp: list_all_iff)
  then have sm: "sum_shares corpus dist ?ps 0 =
           Inr (\<Sum>q \<leftarrow> ?ps. rank_of dist q / of_nat (fcard (links_of corpus q)))"
    using assms(2) by (subst sum_shares_eq) auto
  from assms(1) have ne: "length corpus \<noteq> 0" by (auto simp: dict_keys_def)
  show ?thesis
    using ne by (simp add: inw sm sweep_step_def new_rank_def spec_recurrence_def)
qed

lemma sweep_eq:
  "set pages \<subseteq> set (dict_keys corpus) \<Longrightarrow> set (dict_keys corpus) \<subseteq> set (dict_keys dist) \<Longrightarrow>
   sweep corpus d pages dist = Inr (fold (sweep_step corpus d) pages dist)"
proof (induction pages arbitrary: dist)
  case Nil
  show ?case by simp
next
  case (Cons page pages)
  from Cons.prems have page: "page \<in> set (dict_keys corpus)"
    and pages: "set pages \<subseteq> set (dict_keys corpus)" by auto
  have keys: "set (dict_keys corpus) \<subseteq> set (dict_keys (sweep_step corpus d page dist))"
    using Cons.prems(2) by (auto simp: sweep_step_def set_dict_keys_dict_set)
  have "sweep corpus d (page # pages) dist = sweep corpus d pages (sweep_step corpus d page dist)"
    by (rule sweep_page [OF page Cons.prems(2)])
  also have "\<dots> = Inr (fold (sweep_step corpus d) pages (sweep_step corpus d page dist))"
    by (rule Cons.IH [OF pages keys])
  finally show ?case by (simp del: sweep.simps)
qed

text \<open>
  What the fold leaves for a page: pages after it in the order do not touch its rank, and
  the ranks read for it are those the fold over the pages before it has produced.
\<close>

lemma map_of_sweep_step_same:
  "map_of (sweep_step corpus d page dist) page = Some (new_rank corpus d dist page)"
  by (simp add: sweep_step_def map_of_dict_set)

lemma map_of_sweep_step_other:
  "k \<noteq> page \<Longrightarrow> map_of (sweep_step corpus d page dist) k = map_of dist k"
  by (simp add: sweep_step_def map_of_dict_set)

lemma map_of_fold_sweep_other:
  "k \<notin> set pages \<Longrightarrow> map_of (fold (sweep_step corpus d) pages dist) k = map_of dist k"
  by (induction pages arbitrary: dist) (auto simp: map_of_sweep_step_other)

lemma rank_of_fold_sweep_other:
  "k \<notin> set pages \<Longrightarrow> rank_of (fold (sweep_step corpus d) pages dist) k = rank_of dist k"
  by (simp add: rank_of_def map_of_fold_sweep_other)

lemma spec_recurrence_cong:
  assumes "\<And>q. q \<in> set (dict_keys corpus) \<Longrightarrow> r1 q = r2 q"
  shows "spec_recurrence corpus d r1 p = spec_recurrence corpus d r2 p"
proof -
  have "map (\<lambda>q. r1 q / of_nat (fcard (links_of corpus q)))
          (filter (\<lambda>q. p |\<in>| links_of corpus q) (dict_keys corpus))
        = map (\<lambda>q. r2 q / of_nat (fcard (links_of corpus q)))
          (filter (\<lambda>q. p |\<in>| links_of corpus q) (dict_keys corpus))"
    using assms by (intro map_cong) auto
  then show ?thesis by (simp only: spec_recurrence_def)
qed

lemma fold_sweep_at:
  assumes "distinct (xs @ p # ys)"
  shows "map_of (fold (sweep_step corpus d) (xs @ p # ys) dist) p =
           Some (new_rank corpus d (fold (sweep_step corpus d) xs dist) p)"
proof -
  from assms have "p \<notin> set ys" by auto
  then show ?thesis
    by (simp add: map_of_fold_sweep_other map_of_sweep_step_same)
qed

lemma fold_sweep_mixed:
  assumes "distinct (xs @ p # ys)"
  shows "rank_of (fold (sweep_step corpus d) xs dist) q =
           (if q \<in> set xs then rank_of (fold (sweep_step corpus d) (xs @ p # ys) dist) q
            else rank_of dist q)"
proof (cases "q \<in> set xs")
  case True
  with assms have "q \<notin> set (p # ys)" by auto
  then have "rank_of (fold (sweep_step corpus d) (p # ys) (fold (sweep_step corpus d) xs dist)) q
               = rank_of (fold (sweep_step corpus d) xs dist) q"
    by (rule rank_of_fold_sweep_other)
  with True show ?thesis by simp
next
  case False
  then show ?thesis by (simp add: rank_of_fold_sweep_other)
qed

text \<open>
  C1, as the program has it: a pass over the pages updates the ranks in place. The new rank
  of the page \<open>p\<close> is the recurrence rounded to five decimal places, and the ranks it reads
  are the new ranks of the pages before \<open>p\<close> in the order of the corpus and the previous
  ranks of \<open>p\<close> and the pages after it.
\<close>

theorem sweep_in_place:
  assumes "distinct (dict_keys corpus)"
    and "set (dict_keys corpus) \<subseteq> set (dict_keys dist)"
  shows "\<exists>dist'. sweep corpus d (dict_keys corpus) dist = Inr dist' \<and>
           (\<forall>xs p ys. dict_keys corpus = xs @ p # ys \<longrightarrow>
              map_of dist' p =
                Some (py_round (spec_recurrence corpus d
                        (\<lambda>q. if q \<in> set xs then rank_of dist' q else rank_of dist q) p) 5))"
proof -
  define dist' where "dist' = fold (sweep_step corpus d) (dict_keys corpus) dist"
  have run: "sweep corpus d (dict_keys corpus) dist = Inr dist'"
    unfolding dist'_def by (rule sweep_eq [OF subset_refl assms(2)])
  have "map_of dist' p =
          Some (py_round (spec_recurrence corpus d
                  (\<lambda>q. if q \<in> set xs then rank_of dist' q else rank_of dist q) p) 5)"
    if split: "dict_keys corpus = xs @ p # ys" for xs p ys
  proof -
    from assms(1) split have dist: "distinct (xs @ p # ys)" by simp
    have "map_of dist' p = Some (new_rank corpus d (fold (sweep_step corpus d) xs dist) p)"
      unfolding dist'_def split by (rule fold_sweep_at [OF dist])
    moreover have "spec_recurrence corpus d (rank_of (fold (sweep_step corpus d) xs dist)) p
        = spec_recurrence corpus d (\<lambda>q. if q \<in> set xs then rank_of dist' q else rank_of dist q) p"
      unfolding dist'_def split by (rule spec_recurrence_cong) (rule fold_sweep_mixed [OF dist])
    ultimately show ?thesis by (simp add: new_rank_def)
  qed
  with run show ?thesis by blast
qed

text \<open>
  C1 as stated fails. On the corpus \<open>A \<rightarrow> {A, B}\<close>, \<open>B \<rightarrow> {A}\<close> with damping \<open>1 / 2\<close> and the
  previous ranks \<open>1 / 2\<close>, \<open>1 / 2\<close>, one pass stores \<open>13 / 32\<close> for \<open>B\<close>, computed from the
  new rank \<open>5 / 8\<close> of \<open>A\<close>; the recurrence over the previous ranks gives \<open>3 / 8\<close>.
\<close>

theorem sweep_sequential_counterexample:
  "sweep [(''A'', {|''A'', ''B''|}), (''B'', {|''A''|})] (1 / 2) [''A'', ''B'']
      [(''A'', 1 / 2), (''B'', 1 / 2)] = Inr [(''A'', 5 / 8), (''B'', 13 / 32)] \<and>
   spec_recurrence [(''A'', {|''A'', ''B''|}), (''B'', {|''A''|})] (1 / 2)
      (rank_of [(''A'', 1 / 2), (''B'', 1 / 2)]) ''B'' = 3 / 8"
  by code_simp

section \<open>The iterative solver: the whole run\<close>

lemma initial_distribution_eq:
  "distinct ks \<Longrightarrow> set ks \<inter> set (dict_keys pd) = {} \<Longrightarrow> (ks \<noteq> [] \<Longrightarrow> len \<noteq> 0) \<Longrightarrow>
   initial_distribution len ks pd = Inr (pd @ map (\<lambda>q. (q, 1 / of_nat len)) ks)"
proof (induction ks arbitrary: pd)
  case Nil
  show ?case by simp
next
  case (Cons k ks)
  from Cons.prems have k: "k \<notin> set (dict_keys pd)" and d: "distinct ks" and kk: "k \<notin> set ks"
    and dj: "set ks \<inter> set (dict_keys pd) = {}" and len: "len \<noteq> 0" by auto
  have dj': "set ks \<inter> set (dict_keys (pd @ [(k, 1 / of_nat len)])) = {}"
    using dj kk by (auto simp: dict_keys_def)
  show ?case
    using len Cons.IH [OF d dj'] by (simp add: dict_set_absent [OF k])
qed

lemma initial_distribution_total:
  "(ks \<noteq> [] \<Longrightarrow> len \<noteq> 0) \<Longrightarrow> \<exists>r. initial_distribution len ks pd = Inr r"
  by (induction ks arbitrary: pd) auto

lemma dict_keys_spec_fix_links: "dict_keys (spec_fix_links corpus) = dict_keys corpus"
  by (simp add: spec_fix_links_def dict_keys_def comp_def)

lemma length_spec_fix_links: "length (spec_fix_links corpus) = length corpus"
  by (simp add: spec_fix_links_def)

lemma spec_fix_links_idem: "spec_fix_links (spec_fix_links corpus) = spec_fix_links corpus"
proof (cases "corpus = []")
  case True
  then show ?thesis by (simp add: spec_fix_links_def)
next
  case False
  then have "fset_of_list (dict_keys corpus) \<noteq> {||}"
    by (cases corpus) (auto simp: dict_keys_def)
  then show ?thesis
    by (simp add: spec_fix_links_def [of "spec_fix_links corpus"] dict_keys_spec_fix_links)
       (simp add: spec_fix_links_def)
qed

lemma iterate_pagerank_eq:
  assumes "distinct (dict_keys corpus)"
  shows "iterate_pagerank corpus d =
           map_option (\<lambda>r. (r, spec_fix_links corpus))
             (iterate_loop (spec_fix_links corpus) d
                (map (\<lambda>q. (q, 1 / of_nat (length corpus))) (dict_keys corpus)) [])"
proof -
  have "initial_distribution (length corpus) (dict_keys corpus) []
          = Inr ([] @ map (\<lambda>q. (q, 1 / of_nat (length corpus))) (dict_keys corpus))"
    using assms by (intro initial_distribution_eq) (auto simp: dict_keys_def)
  then show ?thesis
    by (simp add: iterate_pagerank_def fix_dangling_eq [OF assms])
qed

lemma map_of_spec_fix_links:
  "map_of corpus page = Some links \<Longrightarrow>
   map_of (spec_fix_links corpus) page =
     Some (if links = {||} then fset_of_list (dict_keys corpus) else links)"
proof -
  have "map_of (map (\<lambda>kv. (fst kv, g (snd kv))) c) page = map_option g (map_of c page)"
    for g :: "'a fset \<Rightarrow> 'a fset" and c :: "'a corpus"
    by (induction c) auto
  from this [of "\<lambda>l. if l = {||} then fset_of_list (dict_keys corpus) else l" corpus]
  show "map_of corpus page = Some links \<Longrightarrow> ?thesis"
    by (simp add: spec_fix_links_def)
qed

text \<open>
  C6: before it iterates, \<open>iterate_pagerank\<close> gives every page of the corpus whose out-link
  set is empty the set of all pages of the corpus, the page itself among them, and leaves
  every other page's links as they are; the iteration then runs on that corpus.
\<close>

theorem iterate_pagerank_fixes_dangling:
  assumes "distinct (dict_keys corpus)"
  shows "fix_dangling (dict_keys corpus) corpus = (Inr (), spec_fix_links corpus) \<and>
         iterate_pagerank corpus d =
           map_option (\<lambda>r. (r, spec_fix_links corpus))
             (iterate_loop (spec_fix_links corpus) d
                (map (\<lambda>q. (q, 1 / of_nat (length corpus))) (dict_keys corpus)) []) \<and>
         dict_keys (spec_fix_links corpus) = dict_keys corpus \<and>
         (\<forall>page links. map_of corpus page = Some links \<longrightarrow>
            map_of (spec_fix_links corpus) page =
              Some (if links = {||} then fset_of_list (dict_keys corpus) else links) \<and>
            page |\<in>| fset_of_list (dict_keys corpus))"
proof -
  have "page |\<in>| fset_of_list (dict_keys corpus)" if "map_of corpus page = Some links"
    for page links
    using map_of_SomeD [OF that] by (force simp: fset_of_list_elem dict_keys_def)
  then show ?thesis
    using fix_dangling_eq [OF assms] iterate_pagerank_eq [OF assms]
    by (simp add: dict_keys_spec_fix_links map_of_spec_fix_links)
qed

text \<open>
  C8: \<open>iterate_pagerank\<close> is a function of the corpus and the damping factor alone, and the
  one piece of state a run leaves behind, the corpus it rewrote in place, does not change the
  outcome: a second run on that corpus returns the identical mapping.
\<close>

theorem iterate_pagerank_rerun:
  assumes "distinct (dict_keys corpus)"
    and "iterate_pagerank corpus d = Some (res, corpus')"
  shows "iterate_pagerank corpus' d = Some (res, corpus')"
proof -
  from assms(2) have c': "corpus' = spec_fix_links corpus"
    by (auto simp: iterate_pagerank_eq [OF assms(1)])
  have dc: "distinct (dict_keys (spec_fix_links corpus))"
    using assms(1) by (simp add: dict_keys_spec_fix_links)
  have "iterate_pagerank (spec_fix_links corpus) d = iterate_pagerank corpus d"
    by (simp add: iterate_pagerank_eq [OF dc] iterate_pagerank_eq [OF assms(1)]
        spec_fix_links_idem dict_keys_spec_fix_links length_spec_fix_links)
  with assms(2) c' show ?thesis by simp
qed

text \<open>
  C9: \<open>transition_model\<close> and \<open>sample_pagerank\<close> leave the corpus as they found it, for every
  input, and the corpus \<open>iterate_pagerank\<close> leaves behind is the one its preprocessing loop
  produced: the iteration itself writes nothing into it.
\<close>

theorem corpus_frame:
  "snd (transition_model corpus page d) = corpus \<and>
   snd (sample_pagerank rs corpus d n) = corpus \<and>
   (\<forall>res corpus'. iterate_pagerank corpus d' = Some (res, corpus') \<longrightarrow>
      corpus' = snd (fix_dangling (dict_keys corpus) corpus))"
proof -
  have "corpus \<noteq> [] \<Longrightarrow> length corpus \<noteq> 0" by simp
  then obtain init where init: "initial_distribution (length corpus) (dict_keys corpus) [] = Inr init"
    using initial_distribution_total [of "dict_keys corpus" "length corpus" "[]"]
    by (auto simp: dict_keys_def)
  have "corpus' = snd (fix_dangling (dict_keys corpus) corpus)"
    if "iterate_pagerank corpus d' = Some (res, corpus')" for res corpus'
    using that
    by (cases "fix_dangling (dict_keys corpus) corpus")
       (auto simp: iterate_pagerank_def init split: sum.splits)
  then show ?thesis
    by (simp add: transition_model_frame sample_pagerank_frame)
qed

section \<open>The scenarios, evaluated\<close>

lemma iterate_pagerank_dangling:
  "iterate_pagerank dangling_corpus (1 / 2) =
     Some (Inr [(''A'', 3 / 5), (''B'', 2 / 5)], [(''A'', {|''A'', ''B''|}), (''B'', {|''A''|})])"
  by code_simp

lemma distinct_dangling: "distinct (dict_keys dangling_corpus)"
  by (simp add: dict_keys_def dangling_corpus_def)

theorem sweep_in_place_witness:
  "distinct (dict_keys [(''A'', {|''A'', ''B''|}), (''B'', {|''A''|})]) \<and>
   set (dict_keys [(''A'', {|''A'', ''B''|}), (''B'', {|''A''|})])
     \<subseteq> set (dict_keys [(''A'', 1 / 2 :: rat), (''B'', 1 / 2)]) \<and>
   (\<exists>dist'. sweep [(''A'', {|''A'', ''B''|}), (''B'', {|''A''|})] (1 / 2)
              (dict_keys [(''A'', {|''A'', ''B''|}), (''B'', {|''A''|})])
              [(''A'', 1 / 2), (''B'', 1 / 2)] = Inr dist' \<and>
          map_of dist' ''B'' =
            Some (py_round (spec_recurrence [(''A'', {|''A'', ''B''|}), (''B'', {|''A''|})] (1 / 2)
                    (\<lambda>q. if q \<in> set [''A''] then rank_of dist' q
                         else rank_of [(''A'', 1 / 2), (''B'', 1 / 2)] q) ''B'') 5))"
proof -
  have h1: "distinct (dict_keys [(''A'', {|''A'', ''B''|}), (''B'', {|''A''|})])"
    by (simp add: dict_keys_def)
  have h2: "set (dict_keys [(''A'', {|''A'', ''B''|}), (''B'', {|''A''|})])
              \<subseteq> set (dict_keys [(''A'', 1 / 2 :: rat), (''B'', 1 / 2)])"
    by (simp add: dict_keys_def)
  have split: "dict_keys [(''A'', {|''A'', ''B''|}), (''B'', {|''A''|})] = [''A''] @ ''B'' # []"
    by (simp add: dict_keys_def)
  from sweep_in_place [OF h1 h2, of "1 / 2"] split
  have "\<exists>dist'. sweep [(''A'', {|''A'', ''B''|}), (''B'', {|''A''|})] (1 / 2)
              (dict_keys [(''A'', {|''A'', ''B''|}), (''B'', {|''A''|})])
              [(''A'', 1 / 2), (''B'', 1 / 2)] = Inr dist' \<and>
          map_of dist' ''B'' =
            Some (py_round (spec_recurrence [(''A'', {|''A'', ''B''|}), (''B'', {|''A''|})] (1 / 2)
                    (\<lambda>q. if q \<in> set [''A''] then rank_of dist' q
                         else rank_of [(''A'', 1 / 2), (''B'', 1 / 2)] q) ''B'') 5)"
    by blast
  with h1 h2 show ?thesis by blast
qed

theorem iterate_pagerank_fixes_dangling_witness:
  "distinct (dict_keys dangling_corpus) \<and>
   fix_dangling (dict_keys dangling_corpus) dangling_corpus
     = (Inr (), [(''A'', {|''A'', ''B''|}), (''B'', {|''A''|})]) \<and>
   iterate_pagerank dangling_corpus (1 / 2) =
     map_option (\<lambda>r. (r, [(''A'', {|''A'', ''B''|}), (''B'', {|''A''|})]))
       (iterate_loop [(''A'', {|''A'', ''B''|}), (''B'', {|''A''|})] (1 / 2)
          [(''A'', 1 / 2), (''B'', 1 / 2)] [])"
proof -
  have fl: "spec_fix_links dangling_corpus = [(''A'', {|''A'', ''B''|}), (''B'', {|''A''|})]"
    by (simp add: spec_fix_links_def dangling_corpus_def dict_keys_def)
  have init: "map (\<lambda>q. (q, 1 / of_nat (length dangling_corpus) :: rat)) (dict_keys dangling_corpus)
                = [(''A'', 1 / 2), (''B'', 1 / 2)]"
    by (simp add: dangling_corpus_def dict_keys_def)
  show ?thesis
    using distinct_dangling
      iterate_pagerank_fixes_dangling [OF distinct_dangling, of "1 / 2"]
    by (simp only: fl init)
qed

theorem iterate_pagerank_rerun_witness:
  "distinct (dict_keys dangling_corpus) \<and>
   iterate_pagerank dangling_corpus (1 / 2) =
     Some (Inr [(''A'', 3 / 5), (''B'', 2 / 5)], [(''A'', {|''A'', ''B''|}), (''B'', {|''A''|})]) \<and>
   iterate_pagerank [(''A'', {|''A'', ''B''|}), (''B'', {|''A''|})] (1 / 2) =
     Some (Inr [(''A'', 3 / 5), (''B'', 2 / 5)], [(''A'', {|''A'', ''B''|}), (''B'', {|''A''|})])"
  using distinct_dangling iterate_pagerank_dangling
    iterate_pagerank_rerun [OF distinct_dangling iterate_pagerank_dangling]
  by simp

theorem corpus_frame_witness:
  "snd (transition_model dangling_corpus ''B'' (17 / 20)) = dangling_corpus \<and>
   snd (sample_pagerank zero_tape dangling_corpus (17 / 20) 3) = dangling_corpus \<and>
   iterate_pagerank dangling_corpus (1 / 2) =
     Some (Inr [(''A'', 3 / 5), (''B'', 2 / 5)], [(''A'', {|''A'', ''B''|}), (''B'', {|''A''|})]) \<and>
   [(''A'', {|''A'', ''B''|}), (''B'', {|''A''|})]
     = snd (fix_dangling (dict_keys dangling_corpus) dangling_corpus)"
  using iterate_pagerank_dangling
    corpus_frame [of dangling_corpus "''B''" "17 / 20" zero_tape 3 "1 / 2"]
  by simp

end
